theory Spec2Isabelle
  imports Complex_Main "HOL-Library.Multiset" "HOL-Library.Sublist"
begin

section \<open>Equation extraction for the LM5148 datasheet: a model of the Python sources\<close>

text \<open>
  The development follows \<^verbatim>\<open>export_lm5148_equations_to_excel.py\<close> (normalisation,
  classification, spatial ordering, context building, deduplication, identifier assignment)
  and \<^verbatim>\<open>extract_equation_images\<close> of \<^verbatim>\<open>lm5148_design_tool.py\<close> (snapshot lookup by
  equation number).

  Conventions of the model.
  \<^item> A Python \<^verbatim>\<open>str\<close> is a list of Unicode code points (\<open>nat list\<close>), so that \<^verbatim>\<open>len\<close>
    counts code points as Python does.
  \<^item> A Python \<^verbatim>\<open>float\<close> coordinate is modelled by the rational number it denotes; NaN and the
    infinities are outside the model, and arithmetic on coordinates is exact.
  \<^item> An exception is a value of \<open>py_error\<close> on the left of a sum type.
  \<^item> The PDF library (PyMuPDF) is not part of the repository. A page is modelled by the
    data the code reads from it; rendering a pixmap and writing files are effects the
    results below do not depend on and are left out.
\<close>

subsection \<open>Strings\<close>

type_synonym pystr = "nat list"

text \<open>
  \<open>ascii\<close> turns an Isabelle string literal (ASCII characters) into the code-point list of
  the same Python string.
\<close>

definition ascii :: "string \<Rightarrow> pystr" where
  "ascii s = map of_char s"

text \<open>
  The code points for which \<^verbatim>\<open>str.isspace\<close> holds; these are the separators of
  \<^verbatim>\<open>str.split()\<close> and the characters removed by \<^verbatim>\<open>str.strip()\<close> (CPython's
  \<^verbatim>\<open>_PyUnicode_IsWhitespace\<close>).
\<close>

definition isspace :: "nat \<Rightarrow> bool" where
  "isspace c \<longleftrightarrow>
     (0x09 \<le> c \<and> c \<le> 0x0D) \<or> (0x1C \<le> c \<and> c \<le> 0x20) \<or> c = 0x85 \<or> c = 0xA0 \<or>
     c = 0x1680 \<or> (0x2000 \<le> c \<and> c \<le> 0x200A) \<or> c = 0x2028 \<or> c = 0x2029 \<or>
     c = 0x202F \<or> c = 0x205F \<or> c = 0x3000"

text \<open>
  \<^verbatim>\<open>s.split()\<close> without arguments: skip whitespace, take the maximal run of
  non-whitespace characters as a word, repeat until the string is exhausted.
\<close>

function py_split :: "pystr \<Rightarrow> pystr list" where
  "py_split s =
     (if dropWhile isspace s = [] then []
      else takeWhile (\<lambda>c. \<not> isspace c) (dropWhile isspace s)
           # py_split (dropWhile (\<lambda>c. \<not> isspace c) (dropWhile isspace s)))"
  by pat_completeness auto
termination
proof (relation "measure length")
  fix s :: pystr
  assume ne: "dropWhile isspace s \<noteq> []"
  then obtain c r where cr: "dropWhile isspace s = c # r"
    by (cases "dropWhile isspace s") auto
  have "\<not> isspace c"
    using cr hd_dropWhile [of isspace s] by auto
  then have "length (dropWhile (\<lambda>c. \<not> isspace c) (dropWhile isspace s)) \<le> length r"
    by (simp add: cr length_dropWhile_le)
  moreover have "length (c # r) \<le> length s"
    using length_dropWhile_le [of isspace s] by (simp add: cr)
  ultimately show "(dropWhile (\<lambda>c. \<not> isspace c) (dropWhile isspace s), s) \<in> measure length"
    by simp
qed simp

declare py_split.simps [simp del]

text \<open>
  \<^verbatim>\<open>sep.join(words)\<close>.
\<close>

fun py_join :: "pystr \<Rightarrow> pystr list \<Rightarrow> pystr" where
  "py_join sep [] = []"
| "py_join sep [w] = w"
| "py_join sep (w # v # ws) = w @ sep @ py_join sep (v # ws)"

text \<open>
  \<^verbatim>\<open>t.replace(old, new)\<close> for one-character strings \<open>old\<close> and \<open>new\<close>, and
  \<^verbatim>\<open>t.strip()\<close> as stripping on the left and then on the right.
\<close>

definition replace_char :: "nat \<Rightarrow> nat \<Rightarrow> pystr \<Rightarrow> pystr" where
  "replace_char old new s = map (\<lambda>c. if c = old then new else c) s"

definition py_lstrip :: "pystr \<Rightarrow> pystr" where
  "py_lstrip s = dropWhile isspace s"

definition py_rstrip :: "pystr \<Rightarrow> pystr" where
  "py_rstrip s = rev (dropWhile isspace (rev s))"

definition py_strip :: "pystr \<Rightarrow> pystr" where
  "py_strip s = py_rstrip (py_lstrip s)"

definition minus_to_hyphen :: "nat \<Rightarrow> nat" where
  "minus_to_hyphen c = (if c = 0x2212 then 0x2D else c)"

subsection \<open>Block normaliser\<close>

text \<open>
  \<^verbatim>\<open>
  def normalize_equation_text(text):
      t = " ".join(text.split())
      t = t.replace(U+2212, "-")
      return t.strip()
  \<close>
\<close>

definition normalize_equation_text :: "pystr \<Rightarrow> pystr" where
  "normalize_equation_text text =
     (let t = py_join [0x20] (py_split text);
          t = replace_char 0x2212 0x2D t
      in py_strip t)"

text \<open>
  The normaliser as the specification words it, for comparison with the code:
  every maximal run of whitespace becomes one space (\<open>collapse_ws\<close>), leading and trailing
  whitespace is removed (\<open>trim_ws\<close>), and every minus sign U+2212 becomes the ASCII
  hyphen-minus.
\<close>

fun collapse_ws :: "pystr \<Rightarrow> pystr" where
  "collapse_ws [] = []"
| "collapse_ws [c] = (if isspace c then [0x20] else [c])"
| "collapse_ws (c # d # s) =
     (if isspace c \<and> isspace d then collapse_ws (d # s)
      else (if isspace c then 0x20 else c) # collapse_ws (d # s))"

definition trim_ws :: "pystr \<Rightarrow> pystr" where
  "trim_ws s = rev (dropWhile isspace (rev (dropWhile isspace s)))"

definition spec_normalize :: "pystr \<Rightarrow> pystr" where
  "spec_normalize s = map minus_to_hyphen (trim_ws (collapse_ws s))"


subsection \<open>Equation classifier\<close>

text \<open>
  The characters of \<^verbatim>\<open>_EQUATION_HINT_RE\<close>, in the order of the pattern: equals, less-or-equal,
  greater-or-equal, almost-equal, not-equal, slash, n-ary summation, square root, caret.
  \<open>re_search_class cls t\<close> is \<^verbatim>\<open>bool(re.search(p, t))\<close> for a pattern \<open>p\<close> that matches exactly
  one character of the class \<open>cls\<close>.

  The pattern \<^verbatim>\<open>\d\<close> on a \<^verbatim>\<open>str\<close> matches the decimal digits of the interpreter's
  Unicode database, which is not part of the repository: the class is the parameter \<open>digit\<close>
  of the classifier. \<open>ascii_digit\<close> is the class of the ten ASCII digits, used to run the
  classifier on examples.
\<close>

definition hint_chars :: "nat list" where
  "hint_chars = [0x3D, 0x2264, 0x2265, 0x2248, 0x2260, 0x2F, 0x2211, 0x221A, 0x5E]"

definition is_ascii_letter :: "nat \<Rightarrow> bool" where
  "is_ascii_letter c \<longleftrightarrow> (0x41 \<le> c \<and> c \<le> 0x5A) \<or> (0x61 \<le> c \<and> c \<le> 0x7A)"

definition ascii_digit :: "nat \<Rightarrow> bool" where
  "ascii_digit c \<longleftrightarrow> 0x30 \<le> c \<and> c \<le> 0x39"

definition re_search_class :: "(nat \<Rightarrow> bool) \<Rightarrow> pystr \<Rightarrow> bool" where
  "re_search_class cls t = list_ex cls t"

text \<open>
  \<^verbatim>\<open>looks_like_equation(text, *, min_len, require_equals)\<close>, one early return per
  \<^verbatim>\<open>if\<close> of the source.
\<close>

definition looks_like_equation :: "(nat \<Rightarrow> bool) \<Rightarrow> pystr \<Rightarrow> int \<Rightarrow> bool \<Rightarrow> bool" where
  "looks_like_equation digit text min_len require_equals =
     (let t = normalize_equation_text text in
      if int (length t) < min_len then False
      else
        let has_math_hint = re_search_class (\<lambda>c. c \<in> set hint_chars) t in
        if \<not> has_math_hint then False
        else if require_equals \<and> 0x3D \<notin> set t \<and> 0x2264 \<notin> set t \<and> 0x2265 \<notin> set t
                \<and> 0x2248 \<notin> set t \<and> 0x2260 \<notin> set t then False
        else
          let words = py_split t in
          if length words \<ge> 16 \<and> \<not> list_ex (\<lambda>ch. ch \<in> set t) [0x3D, 0x2F, 0x2211, 0x221A]
          then False
          else
            let has_variable = re_search_class is_ascii_letter t;
                has_number = re_search_class digit t
            in (has_variable \<and> has_math_hint) \<and> (has_number \<or> 0x3D \<in> set t))"

subsection \<open>Text blocks and the spatial sequencer\<close>

text \<open>
  A bounding box is \<open>(x0, y0, x1, y1)\<close>. A block is the dictionary built by
  \<^verbatim>\<open>extract_text_blocks\<close>; \<^verbatim>\<open>block_text\<close> and \<^verbatim>\<open>block_bbox\<close> read it with the
  defaults of the source for a missing key.
\<close>

type_synonym bbox = "rat \<times> rat \<times> rat \<times> rat"

record block =
  text_field :: "pystr option"
  bbox_field :: "bbox option"

definition block_text :: "block \<Rightarrow> pystr" where
  "block_text b = (case text_field b of None \<Rightarrow> [] | Some t \<Rightarrow> t)"

definition block_bbox :: "block \<Rightarrow> bbox" where
  "block_bbox b = (case bbox_field b of None \<Rightarrow> (0, 0, 0, 0) | Some bb \<Rightarrow> bb)"

text \<open>
  \<^verbatim>\<open>sorted(blocks, key=key)\<close> with \<open>key b = (y0, x0)\<close>. Python compares the key tuples
  lexicographically (\<open>tuple_le\<close>), and \<^verbatim>\<open>sorted\<close> is stable; it is modelled by insertion from
  the right, where an element is placed before the first element whose key is not smaller.
\<close>

definition tuple_le :: "rat \<times> rat \<Rightarrow> rat \<times> rat \<Rightarrow> bool" where
  "tuple_le a b \<longleftrightarrow> fst a < fst b \<or> (fst a = fst b \<and> snd a \<le> snd b)"

fun insert_sorted :: "('a \<Rightarrow> rat \<times> rat) \<Rightarrow> 'a \<Rightarrow> 'a list \<Rightarrow> 'a list" where
  "insert_sorted key x [] = [x]"
| "insert_sorted key x (y # ys) =
     (if tuple_le (key x) (key y) then x # y # ys else y # insert_sorted key x ys)"

fun py_sorted :: "('a \<Rightarrow> rat \<times> rat) \<Rightarrow> 'a list \<Rightarrow> 'a list" where
  "py_sorted key [] = []"
| "py_sorted key (x # xs) = insert_sorted key x (py_sorted key xs)"

definition position_key :: "block \<Rightarrow> rat \<times> rat" where
  "position_key b = (case block_bbox b of (x0, y0, _) \<Rightarrow> (y0, x0))"

definition sorted_blocks_by_position :: "block list \<Rightarrow> block list" where
  "sorted_blocks_by_position blocks = py_sorted position_key blocks"

subsection \<open>Context builder\<close>

text \<open>
  \<open>py_index xs i\<close> is the Python expression \<^verbatim>\<open>xs[i]\<close>: a negative index counts from the end,
  and an index out of range raises \<^verbatim>\<open>IndexError\<close>. \<open>clip\<close> is the local function of
  \<^verbatim>\<open>build_context\<close>.
\<close>

datatype py_error = IndexError | ValueError

definition py_index :: "'a list \<Rightarrow> int \<Rightarrow> py_error + 'a" where
  "py_index xs i =
     (if 0 \<le> i \<and> i < int (length xs) then Inr (xs ! nat i)
      else if i < 0 \<and> - int (length xs) \<le> i then Inr (xs ! nat (int (length xs) + i))
      else Inl IndexError)"

definition clip :: "pystr \<Rightarrow> pystr" where
  "clip s = (let s = py_join [0x20] (py_split s)
             in if length s > 140 then take 137 s @ ascii ''...'' else s)"

definition build_context :: "block list \<Rightarrow> int \<Rightarrow> py_error + pystr" where
  "build_context blocks_sorted idx =
     (case (if idx - 1 \<ge> 0
            then map_sum id (\<lambda>b. normalize_equation_text (block_text b))
                   (py_index blocks_sorted (idx - 1))
            else Inr []) of
        Inl e \<Rightarrow> Inl e
      | Inr prev_txt \<Rightarrow>
          (case (if idx + 1 < int (length blocks_sorted)
                 then map_sum id (\<lambda>b. normalize_equation_text (block_text b))
                        (py_index blocks_sorted (idx + 1))
                 else Inr []) of
             Inl e \<Rightarrow> Inl e
           | Inr next_txt \<Rightarrow>
               (let prev_txt = clip prev_txt; next_txt = clip next_txt
                in Inr (if prev_txt \<noteq> [] \<and> next_txt \<noteq> []
                        then prev_txt @ ascii '' | '' @ next_txt
                        else if prev_txt \<noteq> [] then prev_txt
                        else if next_txt \<noteq> [] then next_txt
                        else []))))"

text \<open>
  The context string as the specification words it: the snippet of a neighbour is its
  normalised text, clipped to 140 characters (a longer text becomes its first 137 characters
  followed by three dots); the two snippets are joined with \<^verbatim>\<open> | \<close> when both are
  non-empty, otherwise the non-empty one (or the empty string) is returned.
\<close>

definition snippet :: "pystr \<Rightarrow> pystr" where
  "snippet t =
     (let n = normalize_equation_text t
      in if length n \<le> 140 then n else take 137 n @ ascii ''...'')"

definition spec_context :: "block list \<Rightarrow> nat \<Rightarrow> pystr" where
  "spec_context blocks i =
     (let prev = (if 0 < i then snippet (block_text (blocks ! (i - 1))) else []);
          nxt = (if i + 1 < length blocks then snippet (block_text (blocks ! (i + 1))) else [])
      in if prev \<noteq> [] \<and> nxt \<noteq> [] then prev @ ascii '' | '' @ nxt
         else if prev \<noteq> [] then prev else nxt)"

subsection \<open>Deduplicator\<close>

text \<open>
  \<^verbatim>\<open>round(v, 1)\<close>: the nearest multiple of one tenth, a tie going to the even multiple.
  \<^verbatim>\<open>
  def dedupe(items):
      seen = set(); out = []
      for page_num, text, bbox in items:
          t = normalize_equation_text(text)
          bb = tuple(round(v, 1) for v in bbox)
          key = (page_num, t, bb)
          if key in seen: continue
          seen.add(key)
          out.append((page_num, t, bbox))
      return out
  \<close>
\<close>

definition py_round1 :: "rat \<Rightarrow> rat" where
  "py_round1 v =
     (let t = v * 10; f = \<lfloor>t\<rfloor>; d = t - of_int f
      in of_int (if d < 1 / 2 then f
                 else if 1 / 2 < d then f + 1
                 else if even f then f else f + 1) / 10)"

definition round_bbox :: "bbox \<Rightarrow> bbox" where
  "round_bbox bb = (case bb of (x0, y0, x1, y1) \<Rightarrow>
     (py_round1 x0, py_round1 y0, py_round1 x1, py_round1 y1))"

type_synonym item = "int \<times> pystr \<times> bbox"

fun dedupe_loop :: "item set \<Rightarrow> item list \<Rightarrow> item list \<Rightarrow> item list" where
  "dedupe_loop seen out [] = out"
| "dedupe_loop seen out ((page_num, text, bbox) # items) =
     (let t = normalize_equation_text text;
          bb = round_bbox bbox;
          key = (page_num, t, bb)
      in if key \<in> seen then dedupe_loop seen out items
         else dedupe_loop (insert key seen) (out @ [(page_num, t, bbox)]) items)"

definition dedupe :: "item list \<Rightarrow> item list" where
  "dedupe items = dedupe_loop {} [] items"

text \<open>
  The deduplication key of an input triple; the test that no earlier element of the
  input has the key of the element at position \<open>i\<close>; the elements passing that test, in
  input order; and an input triple with its text normalised.
\<close>

definition item_key :: "item \<Rightarrow> item" where
  "item_key x = (case x of (p, t, bb) \<Rightarrow> (p, normalize_equation_text t, round_bbox bb))"

definition kept_first :: "item list \<Rightarrow> nat \<Rightarrow> bool" where
  "kept_first items i \<longleftrightarrow> item_key (items ! i) \<notin> set (map item_key (take i items))"

definition first_occurrences :: "item list \<Rightarrow> item list" where
  "first_occurrences items = map (\<lambda>i. items ! i) (filter (kept_first items) [0..<length items])"

definition canon_item :: "item \<Rightarrow> item" where
  "canon_item x = (case x of (p, t, bb) \<Rightarrow> (p, normalize_equation_text t, bb))"

subsection \<open>Identifier assignment in \<open>main\<close>\<close>

text \<open>
  The part of \<^verbatim>\<open>main\<close> after the page scan: \<open>candidates\<close> is the list of
  \<open>(page, text, bbox, context)\<close> gathered over all pages. \<open>ctx_map_loop\<close> is the loop filling
  \<^verbatim>\<open>ctx_map\<close> with \<^verbatim>\<open>setdefault\<close>; \<open>records_loop\<close> is the loop over \<^verbatim>\<open>deduped_keyed\<close>
  with the counter \<^verbatim>\<open>eq_id\<close>. The image file name is
  \<^verbatim>\<open>f"eq_p{page_num:03d}_{eq_id:04d}.png"\<close>; joining it to the images directory is done by
  \<^verbatim>\<open>pathlib\<close> and is the parameter \<open>in_images_dir\<close>.
\<close>

record EquationItem =
  eq_id :: int
  eq_page :: int
  eq_text :: pystr
  eq_context :: pystr
  eq_bbox :: bbox
  eq_image_path :: pystr

type_synonym candidate = "int \<times> pystr \<times> bbox \<times> pystr"

fun ctx_map_loop :: "candidate list \<Rightarrow> (item \<rightharpoonup> pystr) \<Rightarrow> (item \<rightharpoonup> pystr)" where
  "ctx_map_loop [] ctx_map = ctx_map"
| "ctx_map_loop ((p, t, bb, ctx) # cs) ctx_map =
     (let key = (p, normalize_equation_text t, round_bbox bb)
      in ctx_map_loop cs (if ctx_map key = None then ctx_map(key \<mapsto> ctx) else ctx_map))"

function digits_of :: "nat \<Rightarrow> pystr" where
  "digits_of n = (if n < 10 then [0x30 + n] else digits_of (n div 10) @ [0x30 + n mod 10])"
  by pat_completeness auto
termination
  by (relation "measure id") auto

declare digits_of.simps [simp del]

definition py_str :: "int \<Rightarrow> pystr" where
  "py_str i = (if i < 0 then 0x2D # digits_of (nat (- i)) else digits_of (nat i))"

definition zero_pad :: "nat \<Rightarrow> int \<Rightarrow> pystr" where
  "zero_pad width i =
     (if i < 0
      then 0x2D # replicate (width - 1 - length (digits_of (nat (- i)))) 0x30 @ digits_of (nat (- i))
      else replicate (width - length (digits_of (nat i))) 0x30 @ digits_of (nat i))"

definition img_name :: "int \<Rightarrow> int \<Rightarrow> pystr" where
  "img_name page_num n =
     ascii ''eq_p'' @ zero_pad 3 page_num @ ascii ''_'' @ zero_pad 4 n @ ascii ''.png''"

fun records_loop ::
  "(pystr \<Rightarrow> pystr) \<Rightarrow> (item \<rightharpoonup> pystr) \<Rightarrow> int \<Rightarrow> item list \<Rightarrow> EquationItem list
     \<Rightarrow> EquationItem list" where
  "records_loop in_images_dir ctx_map n [] eq_items = eq_items"
| "records_loop in_images_dir ctx_map n ((page_num, text_norm, bbox) # rest) eq_items =
     (let img_path = in_images_dir (img_name page_num n);
          key = (page_num, text_norm, round_bbox bbox);
          ctx = (case ctx_map key of None \<Rightarrow> [] | Some c \<Rightarrow> c)
      in records_loop in_images_dir ctx_map (n + 1) rest
           (eq_items @ [\<lparr>eq_id = n, eq_page = page_num, eq_text = text_norm,
                          eq_context = ctx, eq_bbox = bbox, eq_image_path = img_path\<rparr>]))"

definition main_records :: "(pystr \<Rightarrow> pystr) \<Rightarrow> candidate list \<Rightarrow> EquationItem list" where
  "main_records in_images_dir candidates =
     (let deduped_keyed = dedupe (map (\<lambda>(p, t, bb, _). (p, t, bb)) candidates);
          ctx_map = ctx_map_loop candidates Map.empty
      in records_loop in_images_dir ctx_map 1 deduped_keyed [])"

subsection \<open>Snapshot locator\<close>

text \<open>
  A page gives its width and height (\<^verbatim>\<open>page.rect\<close>) and the rectangles of
  \<^verbatim>\<open>page.search_for(token)\<close>. The document is the function \<open>load_page\<close>, which raises for a
  page number that is not in the document. The result maps an equation number to the file
  written for it; the model keeps the name of the file within \<^verbatim>\<open>out_dir\<close> and, with
  it, the page searched and the clip rectangle rendered into the file.
  \<^verbatim>\<open>
  for eq in equation_numbers:
      token = f"({eq})"
      for pno in range(pages_1based[0] - 1, pages_1based[1]):
          page = doc.load_page(pno)
          rects = page.search_for(token)
          if not rects: continue
          r = rects[0]
          clip = fitz.Rect(0, max(0, r.y0 - 180), page.rect.width,
                           min(page.rect.height, r.y1 + 30))
          ...
          eq_to_path[eq] = out_path
          break
  return eq_to_path
  \<close>
\<close>

record page =
  page_width :: rat
  page_height :: rat
  search_for :: "pystr \<Rightarrow> bbox list"

record snapshot =
  snap_path :: pystr
  snap_page :: int
  snap_clip :: bbox

definition crop_rect :: "page \<Rightarrow> bbox \<Rightarrow> bbox" where
  "crop_rect pg r = (case r of (x0, y0, x1, y1) \<Rightarrow>
     (0, max 0 (y0 - 180), page_width pg, min (page_height pg) (y1 + 30)))"

definition eq_token :: "int \<Rightarrow> pystr" where
  "eq_token eq = ascii ''('' @ py_str eq @ ascii '')''"

definition eq_file_name :: "int \<Rightarrow> int \<Rightarrow> pystr" where
  "eq_file_name eq pno = ascii ''eq_'' @ py_str eq @ ascii ''_p'' @ py_str (pno + 1) @ ascii ''.png''"

fun search_pages ::
  "(int \<Rightarrow> py_error + page) \<Rightarrow> int \<Rightarrow> int list \<Rightarrow> py_error + snapshot option" where
  "search_pages load_page eq [] = Inr None"
| "search_pages load_page eq (pno # pnos) =
     (case load_page pno of
        Inl e \<Rightarrow> Inl e
      | Inr pg \<Rightarrow>
          (case search_for pg (eq_token eq) of
             [] \<Rightarrow> search_pages load_page eq pnos
           | r # _ \<Rightarrow>
               Inr (Some \<lparr>snap_path = eq_file_name eq pno, snap_page = pno,
                          snap_clip = crop_rect pg r\<rparr>)))"

fun images_loop ::
  "(int \<Rightarrow> py_error + page) \<Rightarrow> int \<times> int \<Rightarrow> int list \<Rightarrow> (int \<rightharpoonup> snapshot)
     \<Rightarrow> py_error + (int \<rightharpoonup> snapshot)" where
  "images_loop load_page pages_1based [] eq_to_path = Inr eq_to_path"
| "images_loop load_page pages_1based (eq # eqs) eq_to_path =
     (case search_pages load_page eq [fst pages_1based - 1 .. snd pages_1based - 1] of
        Inl e \<Rightarrow> Inl e
      | Inr None \<Rightarrow> images_loop load_page pages_1based eqs eq_to_path
      | Inr (Some snap) \<Rightarrow> images_loop load_page pages_1based eqs (eq_to_path(eq \<mapsto> snap)))"

definition extract_equation_images ::
  "(int \<Rightarrow> py_error + page) \<Rightarrow> int list \<Rightarrow> int \<times> int \<Rightarrow> py_error + (int \<rightharpoonup> snapshot)" where
  "extract_equation_images load_page equation_numbers pages_1based =
     images_loop load_page pages_1based equation_numbers Map.empty"

text \<open>
  The lookup as the specification words it, over pages that all load: the first page of the
  list on which the token is found, with the crop built from the first match rectangle.
\<close>

definition locate_in :: "(int \<Rightarrow> page) \<Rightarrow> int \<Rightarrow> int list \<Rightarrow> snapshot option" where
  "locate_in pg eq pnos =
     (case find (\<lambda>pno. search_for (pg pno) (eq_token eq) \<noteq> []) pnos of
        None \<Rightarrow> None
      | Some pno \<Rightarrow>
          Some \<lparr>snap_path = eq_file_name eq pno, snap_page = pno,
                snap_clip = crop_rect (pg pno) (hd (search_for (pg pno) (eq_token eq)))\<rparr>)"

text \<open>
  A document of two pages on which to run the locator: a Letter-size page without any
  match, followed by a page on which the token \<^verbatim>\<open>(31)\<close> is found twice. A page number
  from 2 on is not in the document; a negative one counts from the end.
\<close>

definition blank_page :: page where
  "blank_page = \<lparr>page_width = 612, page_height = 792, search_for = (\<lambda>token. [])\<rparr>"

definition eq31_page :: page where
  "eq31_page =
     \<lparr>page_width = 612, page_height = 792,
      search_for = (\<lambda>token. if token = ascii ''(31)''
                             then [(500, 100, 520, 110), (500, 400, 520, 410)] else [])\<rparr>"

definition two_pages :: "int \<Rightarrow> page" where
  "two_pages pno = (if pno mod 2 = 0 then blank_page else eq31_page)"

definition two_page_doc :: "int \<Rightarrow> py_error + page" where
  "two_page_doc pno = (if pno < 2 then Inr (two_pages pno) else Inl ValueError)"

section \<open>Properties\<close>

subsection \<open>Splitting, joining and stripping\<close>

lemma isspace_space: "isspace 0x20"
  by (simp add: isspace_def)

lemma py_split_Nil: "py_split [] = []"
  by (simp add: py_split.simps)

lemma py_split_Cons:
  "py_split (c # s) =
     (if isspace c then py_split s
      else (c # takeWhile (\<lambda>c. \<not> isspace c) s) # py_split (dropWhile (\<lambda>c. \<not> isspace c) s))"
  by (subst py_split.simps, subst (2) py_split.simps) simp

lemma py_split_words:
  "w \<in> set (py_split s) \<Longrightarrow> w \<noteq> [] \<and> (\<forall>c\<in>set w. \<not> isspace c)"
proof (induction s rule: py_split.induct)
  case (1 s)
  show ?case
  proof (cases "dropWhile isspace s = []")
    case True
    with "1.prems" show ?thesis by (simp add: py_split.simps)
  next
    case False
    then obtain c r where cr: "dropWhile isspace s = c # r"
      by (cases "dropWhile isspace s") auto
    have nc: "\<not> isspace c"
      using cr hd_dropWhile [of isspace s] by auto
    have eq: "py_split s = takeWhile (\<lambda>c. \<not> isspace c) (dropWhile isspace s)
               # py_split (dropWhile (\<lambda>c. \<not> isspace c) (dropWhile isspace s))"
      using False by (subst py_split.simps) simp
    from "1.prems"
    have "w = takeWhile (\<lambda>c. \<not> isspace c) (dropWhile isspace s)
          \<or> w \<in> set (py_split (dropWhile (\<lambda>c. \<not> isspace c) (dropWhile isspace s)))"
      unfolding eq by simp
    then show ?thesis
    proof
      assume "w = takeWhile (\<lambda>c. \<not> isspace c) (dropWhile isspace s)"
      then show ?thesis using nc cr by (auto dest: set_takeWhileD)
    next
      assume "w \<in> set (py_split (dropWhile (\<lambda>c. \<not> isspace c) (dropWhile isspace s)))"
      then show ?thesis using "1.IH" [OF False] by blast
    qed
  qed
qed

lemma py_split_word_append:
  assumes "w \<noteq> []" "\<forall>c\<in>set w. \<not> isspace c" "isspace d"
  shows "py_split (w @ d # r) = w # py_split r"
proof -
  obtain c w' where w: "w = c # w'" using assms(1) by (cases w) auto
  have t: "takeWhile (\<lambda>c. \<not> isspace c) (w' @ d # r) = w'"
    using assms(2,3) w by (simp add: takeWhile_append2)
  have d: "dropWhile (\<lambda>c. \<not> isspace c) (w' @ d # r) = d # r"
    using assms(2,3) w by (simp add: dropWhile_append2)
  show ?thesis
    using assms(2,3) by (simp add: w py_split_Cons t d)
qed

lemma py_split_word:
  assumes "w \<noteq> []" "\<forall>c\<in>set w. \<not> isspace c"
  shows "py_split w = [w]"
proof -
  obtain c w' where w: "w = c # w'" using assms(1) by (cases w) auto
  have t: "takeWhile (\<lambda>c. \<not> isspace c) w' = w'"
    using assms(2) w by simp
  have d: "dropWhile (\<lambda>c. \<not> isspace c) w' = []"
    using assms(2) w by simp
  show ?thesis using assms(2) by (simp add: w py_split_Cons t d py_split_Nil)
qed

lemma py_split_join:
  "\<forall>w\<in>set ws. w \<noteq> [] \<and> (\<forall>c\<in>set w. \<not> isspace c) \<Longrightarrow> py_split (py_join [0x20] ws) = ws"
proof (induction ws)
  case Nil
  then show ?case by (simp add: py_split_Nil)
next
  case (Cons w ws)
  show ?case
  proof (cases ws)
    case Nil
    with Cons.prems show ?thesis by (simp add: py_split_word)
  next
    case (Cons v vs)
    have "py_split (w @ 0x20 # py_join [0x20] ws) = w # py_split (py_join [0x20] ws)"
      using Cons.prems by (intro py_split_word_append) (simp_all add: isspace_space)
    moreover have "py_split (py_join [0x20] ws) = ws"
      using Cons.IH Cons.prems by simp
    ultimately show ?thesis by (simp add: Cons)
  qed
qed


lemma py_join_Cons:
  "py_join sep (w # ws) = (if ws = [] then w else w @ sep @ py_join sep ws)"
  by (cases ws) simp_all

lemma py_join_eq_Nil:
  "\<forall>w\<in>set ws. w \<noteq> [] \<Longrightarrow> py_join sep ws = [] \<longleftrightarrow> ws = []"
  by (cases ws) (simp_all add: py_join_Cons)

lemma py_join_map:
  "py_join (map f sep) (map (map f) ws) = map f (py_join sep ws)"
  by (induction sep ws rule: py_join.induct) simp_all

lemma py_rstrip_append:
  "py_rstrip (x @ y) = (if \<forall>c\<in>set y. isspace c then py_rstrip x else x @ py_rstrip y)"
  by (simp add: py_rstrip_def dropWhile_append)

lemma py_rstrip_eq_Nil: "py_rstrip x = [] \<longleftrightarrow> (\<forall>c\<in>set x. isspace c)"
  by (simp add: py_rstrip_def dropWhile_eq_Nil_conv)

lemma py_rstrip_last: "x \<noteq> [] \<Longrightarrow> \<not> isspace (last x) \<Longrightarrow> py_rstrip x = x"
  by (cases x rule: rev_cases) (simp_all add: py_rstrip_def)

lemma py_rstrip_Nil: "py_rstrip [] = []"
  by (simp add: py_rstrip_def)

lemma py_lstrip_hd: "x = [] \<or> \<not> isspace (hd x) \<Longrightarrow> py_lstrip x = x"
  by (cases x) (auto simp: py_lstrip_def)

lemma py_join_ends:
  "\<forall>w\<in>set ws. w \<noteq> [] \<and> (\<forall>c\<in>set w. \<not> isspace c) \<Longrightarrow> ws \<noteq> [] \<Longrightarrow>
     py_join sep ws \<noteq> [] \<and> \<not> isspace (hd (py_join sep ws)) \<and> \<not> isspace (last (py_join sep ws))"
proof (induction ws)
  case Nil
  then show ?case by simp
next
  case (Cons w ws)
  then show ?case
    by (cases "ws = []") (auto simp: py_join_Cons)
qed

lemma isspace_minus_to_hyphen: "isspace (minus_to_hyphen c) = isspace c"
  by (simp add: minus_to_hyphen_def isspace_def)

lemma minus_to_hyphen_idem: "minus_to_hyphen (minus_to_hyphen c) = minus_to_hyphen c"
  by (simp add: minus_to_hyphen_def)

lemma replace_char_minus: "replace_char 0x2212 0x2D s = map minus_to_hyphen s"
  by (simp add: replace_char_def minus_to_hyphen_def)

lemma py_strip_fixed:
  assumes "x = [] \<or> (\<not> isspace (hd x) \<and> \<not> isspace (last x))"
  shows "py_strip x = x"
proof (cases "x = []")
  case True
  then show ?thesis by (simp add: py_strip_def py_lstrip_def py_rstrip_def)
next
  case False
  with assms have "py_lstrip x = x" "py_rstrip x = x"
    by (simp_all add: py_lstrip_hd py_rstrip_last)
  then show ?thesis by (simp add: py_strip_def)
qed

lemma normalize_join:
  "normalize_equation_text s = map minus_to_hyphen (py_join [0x20] (py_split s))"
proof -
  let ?j = "py_join [0x20] (py_split s)"
  have ok: "\<forall>w\<in>set (py_split s). w \<noteq> [] \<and> (\<forall>c\<in>set w. \<not> isspace c)"
    using py_split_words by blast
  have "map minus_to_hyphen ?j = [] \<or>
        (\<not> isspace (hd (map minus_to_hyphen ?j)) \<and> \<not> isspace (last (map minus_to_hyphen ?j)))"
  proof (cases "py_split s = []")
    case True
    then show ?thesis by simp
  next
    case False
    from py_join_ends [OF ok False, of "[0x20]"]
    show ?thesis by (simp add: hd_map last_map isspace_minus_to_hyphen)
  qed
  then have "py_strip (map minus_to_hyphen ?j) = map minus_to_hyphen ?j"
    by (rule py_strip_fixed)
  then show ?thesis
    by (simp add: normalize_equation_text_def replace_char_minus)
qed

lemma isspace_comp_minus: "isspace \<circ> minus_to_hyphen = isspace"
  by (rule ext) (simp add: isspace_minus_to_hyphen)

lemma nonspace_comp_minus: "(\<lambda>c. \<not> isspace c) \<circ> minus_to_hyphen = (\<lambda>c. \<not> isspace c)"
  by (rule ext) (simp add: isspace_minus_to_hyphen)

lemma py_split_map_minus:
  "py_split (map minus_to_hyphen s) = map (map minus_to_hyphen) (py_split s)"
proof (induction s rule: py_split.induct)
  case (1 s)
  show ?case
  proof (cases "dropWhile isspace s = []")
    case True
    then show ?thesis
      by (subst py_split.simps, subst (2) py_split.simps)
         (simp add: dropWhile_map isspace_comp_minus)
  next
    case False
    from "1.IH" [OF False] False show ?thesis
      by (subst py_split.simps, subst (2) py_split.simps)
         (simp add: dropWhile_map takeWhile_map isspace_comp_minus nonspace_comp_minus)
  qed
qed

lemma py_split_normalize:
  "py_split (normalize_equation_text s) = map (map minus_to_hyphen) (py_split s)"
proof -
  have "py_split (py_join [0x20] (py_split s)) = py_split s"
    using py_split_words by (intro py_split_join) blast
  then show ?thesis by (simp add: normalize_join py_split_map_minus)
qed

lemma normalize_idem:
  "normalize_equation_text (normalize_equation_text s) = normalize_equation_text s"
proof -
  have "py_join [0x20] (map (map minus_to_hyphen) (py_split s))
        = map minus_to_hyphen (py_join [0x20] (py_split s))"
    using py_join_map [of minus_to_hyphen "[0x20]" "py_split s"]
    by (simp add: minus_to_hyphen_def)
  then have "normalize_equation_text (normalize_equation_text s)
             = map minus_to_hyphen (map minus_to_hyphen (py_join [0x20] (py_split s)))"
    by (subst normalize_join) (simp add: py_split_normalize)
  then show ?thesis
    by (simp add: normalize_join minus_to_hyphen_idem)
qed


lemma collapse_ws_nonspace: "\<not> isspace c \<Longrightarrow> collapse_ws (c # s) = c # collapse_ws s"
  by (cases s) simp_all

lemma collapse_ws_space:
  "isspace c \<Longrightarrow> collapse_ws (c # s) = 0x20 # collapse_ws (dropWhile isspace s)"
proof (induction s arbitrary: c)
  case Nil
  then show ?case by simp
next
  case (Cons d s)
  then show ?case by (cases "isspace d") simp_all
qed

lemma collapse_ws_word:
  "\<forall>c\<in>set w. \<not> isspace c \<Longrightarrow> collapse_ws (w @ s) = w @ collapse_ws s"
  by (induction w) (simp_all add: collapse_ws_nonspace)

lemma collapse_ws_hd:
  "s = [] \<or> \<not> isspace (hd s) \<Longrightarrow> collapse_ws s = [] \<or> \<not> isspace (hd (collapse_ws s))"
  by (cases s) (auto simp: collapse_ws_nonspace)

lemma hd_dropWhile_isspace:
  "dropWhile isspace s = [] \<or> \<not> isspace (hd (dropWhile isspace s))"
  using hd_dropWhile [of isspace s] by blast

lemma lstrip_collapse_ws:
  "py_lstrip (collapse_ws s) = collapse_ws (dropWhile isspace s)"
proof (cases s)
  case Nil
  then show ?thesis by (simp add: py_lstrip_def)
next
  case (Cons c r)
  show ?thesis
  proof (cases "isspace c")
    case True
    have "py_lstrip (collapse_ws (dropWhile isspace r)) = collapse_ws (dropWhile isspace r)"
      by (intro py_lstrip_hd collapse_ws_hd hd_dropWhile_isspace)
    then show ?thesis
      using True by (simp add: Cons collapse_ws_space py_lstrip_def isspace_space)
  next
    case False
    then show ?thesis by (simp add: Cons collapse_ws_nonspace py_lstrip_def)
  qed
qed

lemma py_rstrip_sep_spaces:
  "py_rstrip y = [] \<Longrightarrow> py_rstrip (x @ 0x20 # y) = py_rstrip x"
  by (simp add: py_rstrip_append py_rstrip_eq_Nil isspace_space)

lemma py_rstrip_sep_word:
  "py_rstrip y \<noteq> [] \<Longrightarrow> py_rstrip (x @ 0x20 # y) = x @ [0x20] @ py_rstrip y"
  using py_rstrip_append [of "x @ [0x20]" y] by (auto simp: py_rstrip_eq_Nil)

lemma rstrip_collapse_ws:
  "py_rstrip (collapse_ws (dropWhile isspace s)) = py_join [0x20] (py_split s)"
proof (induction s rule: py_split.induct)
  case (1 s)
  let ?s' = "dropWhile isspace s"
  let ?w = "takeWhile (\<lambda>c. \<not> isspace c) ?s'"
  let ?r = "dropWhile (\<lambda>c. \<not> isspace c) ?s'"
  show ?case
  proof (cases "?s' = []")
    case True
    then show ?thesis
      by (subst py_split.simps)
         (simp only: True refl if_True py_join.simps collapse_ws.simps py_rstrip_Nil)
  next
    case False
    have split: "py_split s = ?w # py_split ?r"
      using False by (subst py_split.simps) simp
    have IH: "py_rstrip (collapse_ws (dropWhile isspace ?r)) = py_join [0x20] (py_split ?r)"
      using "1.IH" [OF False] .
    obtain c t where ct: "?s' = c # t"
      using False by (cases ?s') auto
    have nc: "\<not> isspace c"
      using ct hd_dropWhile [of isspace s] by auto
    have wne: "?w \<noteq> []" using nc by (simp add: ct)
    have wns: "\<forall>c\<in>set ?w. \<not> isspace c" by (auto dest: set_takeWhileD)
    have wlast: "\<not> isspace (last ?w)" using wne wns last_in_set by blast
    have rw: "py_rstrip ?w = ?w" using wne wlast by (rule py_rstrip_last)
    have "collapse_ws ?s' = collapse_ws (?w @ ?r)" by simp
    also have "\<dots> = ?w @ collapse_ws ?r" using wns by (rule collapse_ws_word)
    finally have col: "collapse_ws ?s' = ?w @ collapse_ws ?r" .
    have words: "\<forall>w\<in>set (py_split ?r). w \<noteq> []" using py_split_words by blast
    show ?thesis
    proof (cases "?r = []")
      case True
      then have "py_split ?r = []" by (simp only: py_split_Nil)
      moreover have "py_rstrip (?w @ collapse_ws ?r) = ?w"
        by (simp only: True collapse_ws.simps append_Nil2 rw)
      ultimately show ?thesis by (simp only: col split py_join.simps)
    next
      case False
      then obtain d u where du: "?r = d # u" by (cases ?r) auto
      have sd: "isspace d" using du hd_dropWhile [of "\<lambda>c. \<not> isspace c" ?s'] by auto
      let ?y = "collapse_ws (dropWhile isspace ?r)"
      have dr: "dropWhile isspace (d # u) = dropWhile isspace u" using sd by simp
      have "collapse_ws (d # u) = 0x20 # collapse_ws (dropWhile isspace u)"
        using sd by (rule collapse_ws_space)
      then have cr: "collapse_ws ?r = 0x20 # ?y"
        by (simp only: du dr)
      show ?thesis
      proof (cases "py_split ?r = []")
        case True
        then have "py_rstrip ?y = []" by (simp only: IH py_join.simps)
        then have "py_rstrip (?w @ 0x20 # ?y) = py_rstrip ?w"
          by (rule py_rstrip_sep_spaces)
        then have "py_rstrip (collapse_ws ?s') = ?w"
          by (simp only: col cr rw)
        then show ?thesis by (simp only: split True py_join.simps)
      next
        case False
        then have jne: "py_join [0x20] (py_split ?r) \<noteq> []"
          using words by (simp only: py_join_eq_Nil not_False_eq_True)
        then have "py_rstrip ?y \<noteq> []" by (simp only: IH not_False_eq_True)
        then have "py_rstrip (?w @ 0x20 # ?y) = ?w @ [0x20] @ py_rstrip ?y"
          by (rule py_rstrip_sep_word)
        then have "py_rstrip (collapse_ws ?s') = ?w @ [0x20] @ py_join [0x20] (py_split ?r)"
          by (simp only: col cr IH)
        then show ?thesis using False by (simp only: split py_join_Cons if_False)
      qed
    qed
  qed
qed

lemma trim_collapse_ws: "trim_ws (collapse_ws s) = py_join [0x20] (py_split s)"
proof -
  have "trim_ws (collapse_ws s) = py_rstrip (py_lstrip (collapse_ws s))"
    by (simp add: trim_ws_def py_rstrip_def py_lstrip_def)
  then show ?thesis by (simp add: lstrip_collapse_ws rstrip_collapse_ws)
qed

lemma normalize_refines: "normalize_equation_text s = spec_normalize s"
  by (simp add: normalize_join spec_normalize_def trim_collapse_ws)

subsection \<open>Normaliser and classifier\<close>

lemma normalize_Nil: "normalize_equation_text [] = []"
  by (simp add: normalize_join py_split_Nil)

lemmas norm_eval =
  normalize_join py_split_Cons py_split_Nil isspace_def ascii_def minus_to_hyphen_def

lemma norm_vout: "normalize_equation_text (ascii ''VOUT = 5 V'') = [86, 79, 85, 84, 32, 61, 32, 53, 32, 86]"
  by (simp add: norm_eval)

lemma norm_x: "normalize_equation_text (ascii ''x'') = [120]"
  by (simp add: norm_eval)

lemma list_ex_member: "list_ex (\<lambda>c. c \<in> set cs) n \<longleftrightarrow> (\<exists>c\<in>set n. c \<in> set cs)"
  by (simp add: list_ex_iff)

lemma bex_swap_not_ball: "(\<exists>ch\<in>set cs. ch \<in> set n) \<longleftrightarrow> \<not> (\<forall>c\<in>set n. c \<notin> set cs)"
  by blast

lemma none_of_five:
  "(a \<notin> set n \<and> b \<notin> set n \<and> c \<notin> set n \<and> d \<notin> set n \<and> e \<notin> set n)
     \<longleftrightarrow> \<not> (\<exists>x\<in>set n. x \<in> set [a, b, c, d, e])"
  by auto

lemma if_chain:
  "(if A then False else if \<not> H then False else if R then False else if W then False
    else (V \<and> H) \<and> N) \<longleftrightarrow> (\<not> A \<and> H \<and> \<not> R \<and> \<not> W \<and> V \<and> N)"
  by auto

lemma looks_like_equation_unfold:
  "looks_like_equation digit t m r \<longleftrightarrow>
     (let n = normalize_equation_text t in
        \<not> int (length n) < m
      \<and> re_search_class (\<lambda>c. c \<in> set hint_chars) n
      \<and> \<not> (r \<and> 0x3D \<notin> set n \<and> 0x2264 \<notin> set n \<and> 0x2265 \<notin> set n
                \<and> 0x2248 \<notin> set n \<and> 0x2260 \<notin> set n)
      \<and> \<not> (length (py_split n) \<ge> 16 \<and> \<not> list_ex (\<lambda>ch. ch \<in> set n) [0x3D, 0x2F, 0x2211, 0x221A])
      \<and> re_search_class is_ascii_letter n
      \<and> (re_search_class digit n \<or> 0x3D \<in> set n))"
  unfolding looks_like_equation_def Let_def
  by (rule if_chain)

lemma looks_like_equation_chars:
  "looks_like_equation digit t m r \<longleftrightarrow>
     (let n = normalize_equation_text t in
        m \<le> int (length n)
      \<and> (\<exists>c\<in>set n. c \<in> set [0x3D, 0x2264, 0x2265, 0x2248, 0x2260, 0x2F, 0x2211, 0x221A, 0x5E])
      \<and> (r \<longrightarrow> (\<exists>c\<in>set n. c \<in> set [0x3D, 0x2264, 0x2265, 0x2248, 0x2260]))
      \<and> \<not> (16 \<le> length (py_split n) \<and> (\<forall>c\<in>set n. c \<notin> set [0x3D, 0x2F, 0x2211, 0x221A]))
      \<and> (\<exists>c\<in>set n. is_ascii_letter c)
      \<and> ((\<exists>c\<in>set n. digit c) \<or> 0x3D \<in> set n))"
  unfolding looks_like_equation_unfold Let_def re_search_class_def hint_chars_def
    list_ex_member none_of_five not_less
  unfolding list_ex_iff bex_swap_not_ball [of "[0x3D, 0x2F, 0x2211, 0x221A]"]
  by (simp only: not_not de_Morgan_conj imp_conv_disj)

text \<open>
  Claim C8. Normalisation is idempotent: normalising an already normalised string gives
  the same string.
\<close>

theorem normalize_equation_text_idempotent:
  "normalize_equation_text (normalize_equation_text s) = normalize_equation_text s"
  by (rule normalize_idem)

theorem normalize_equation_text_idempotent_witness:
  "normalize_equation_text (normalize_equation_text (ascii ''  a   b '' @ [0x2212, 0x0A])) =
     ascii ''a b -''"
  using normalize_equation_text_idempotent [of "ascii ''  a   b '' @ [0x2212, 0x0A]"]
  by (simp add: norm_eval)

text \<open>
  Claim C9. The classifier is invariant under normalisation of its input: for every text,
  minimum length and relational toggle (and every digit class), classifying the text and
  classifying its normal form give the same answer.
\<close>

theorem looks_like_equation_normalize_invariant:
  "looks_like_equation digit t m r = looks_like_equation digit (normalize_equation_text t) m r"
  by (simp add: looks_like_equation_def normalize_idem)

theorem looks_like_equation_normalize_invariant_witness:
  "looks_like_equation ascii_digit (normalize_equation_text (ascii ''  VOUT  = 5 V '')) 6 True"
proof -
  have n: "normalize_equation_text (ascii ''  VOUT  = 5 V '')
             = [86, 79, 85, 84, 32, 61, 32, 53, 32, 86]"
    by (simp add: norm_eval)
  have "looks_like_equation ascii_digit (ascii ''  VOUT  = 5 V '') 6 True"
    unfolding looks_like_equation_unfold Let_def re_search_class_def hint_chars_def n
    by (simp add: is_ascii_letter_def)
  then show ?thesis
    using looks_like_equation_normalize_invariant
      [of ascii_digit "ascii ''  VOUT  = 5 V ''" 6 True]
    by simp
qed

text \<open>
  Claim C6. \<open>normalize_equation_text\<close> is a total function of its input alone. Its result is
  the input with every run of whitespace (newlines included) collapsed to one space, leading
  and trailing whitespace removed, and every minus sign U+2212 replaced by the ASCII
  hyphen-minus; the empty string is mapped to the empty string.
\<close>

theorem normalize_equation_text_spec:
  "normalize_equation_text s = spec_normalize s \<and> normalize_equation_text [] = []"
  using normalize_refines [of s] normalize_Nil by simp

theorem normalize_equation_text_spec_witness:
  "spec_normalize (ascii ''  a   b '' @ [0x2212, 0x0A]) = ascii ''a b -''"
  using normalize_equation_text_spec [of "ascii ''  a   b '' @ [0x2212, 0x0A]"]
  by (simp add: norm_eval)

lemma norm_eta:
  "normalize_equation_text ([0x3B7] @ ascii '' = 0.95'') = [0x3B7] @ ascii '' = 0.95''"
  by (simp add: norm_eval)

text \<open>
  Claim C1, as stated, asks in condition (5) for an alphabetic character and a digit. The
  code searches for the pattern \<^verbatim>\<open>[A-Za-z]\<close>, which a letter outside ASCII does not match.
  The text \<^verbatim>\<open>U+03B7 = 0.95\<close> (Greek small letter eta, an efficiency) is in normal form,
  has 8 characters, contains the equals sign, splits into 3 words, and contains an
  alphabetic character and digits: the conditions (1) to (5) hold as the claim words them,
  yet the classifier rejects the text, whatever the digit class.
\<close>

theorem looks_like_equation_alphabetic_counterexample:
  "normalize_equation_text ([0x3B7] @ ascii '' = 0.95'') = [0x3B7] @ ascii '' = 0.95''
   \<and> (6::int) \<le> int (length ([0x3B7] @ ascii '' = 0.95''))
   \<and> 0x3D \<in> set ([0x3B7] @ ascii '' = 0.95'')
   \<and> length (py_split ([0x3B7] @ ascii '' = 0.95'')) = 3
   \<and> 0x3B7 \<in> set ([0x3B7] @ ascii '' = 0.95'')
   \<and> (\<exists>c\<in>set ([0x3B7] @ ascii '' = 0.95''). ascii_digit c)
   \<and> (\<forall>digit. \<not> looks_like_equation digit ([0x3B7] @ ascii '' = 0.95'') 6 True)"
proof (intro conjI allI)
  show "normalize_equation_text ([0x3B7] @ ascii '' = 0.95'') = [0x3B7] @ ascii '' = 0.95''"
    by (rule norm_eta)
  show "(6::int) \<le> int (length ([0x3B7] @ ascii '' = 0.95''))"
    by (simp add: ascii_def)
  show "0x3D \<in> set ([0x3B7] @ ascii '' = 0.95'')"
    by (simp add: ascii_def)
  show "length (py_split ([0x3B7] @ ascii '' = 0.95'')) = 3"
    by (simp add: ascii_def py_split_Cons py_split_Nil isspace_def)
  show "0x3B7 \<in> set ([0x3B7] @ ascii '' = 0.95'')"
    by simp
  show "\<exists>c\<in>set ([0x3B7] @ ascii '' = 0.95''). ascii_digit c"
    by (simp add: ascii_def ascii_digit_def)
  show "\<not> looks_like_equation digit ([0x3B7] @ ascii '' = 0.95'') 6 True" for digit
    unfolding looks_like_equation_unfold Let_def norm_eta re_search_class_def
    by (simp add: ascii_def is_ascii_letter_def)
qed

text \<open>
  Claim C1, amended. \<open>looks_like_equation t m r\<close> holds if and only if, for \<open>n\<close> the normal
  form of \<open>t\<close>: (1) \<open>n\<close> has at least \<open>m\<close> characters; (2) \<open>n\<close> contains a character of the
  hint set; (3) if \<open>r\<close> is set, \<open>n\<close> contains a relational character; (4) it is not the case
  that \<open>n\<close> splits into 16 or more words while containing none of equals, slash, summation,
  square root; (5) \<open>n\<close> contains an ASCII letter (a character matched by \<^verbatim>\<open>[A-Za-z]\<close>) and
  also a character matched by \<^verbatim>\<open>\d\<close> (a decimal digit) or an equals sign. With the
  defaults \<open>m = 6\<close> and \<open>r = True\<close> the text \<^verbatim>\<open>VOUT = 5 V\<close> is accepted and \<^verbatim>\<open>x\<close> is rejected.
\<close>

theorem looks_like_equation_iff:
  "(looks_like_equation digit t m r \<longleftrightarrow>
     (let n = normalize_equation_text t in
        m \<le> int (length n)
      \<and> (\<exists>c\<in>set n. c \<in> {0x3D, 0x2264, 0x2265, 0x2248, 0x2260, 0x2F, 0x2211, 0x221A, 0x5E})
      \<and> (r \<longrightarrow> (\<exists>c\<in>set n. c \<in> {0x3D, 0x2264, 0x2265, 0x2248, 0x2260}))
      \<and> \<not> (16 \<le> length (py_split n) \<and> (\<forall>c\<in>set n. c \<notin> {0x3D, 0x2F, 0x2211, 0x221A}))
      \<and> (\<exists>c\<in>set n. is_ascii_letter c)
      \<and> ((\<exists>c\<in>set n. digit c) \<or> 0x3D \<in> set n)))
   \<and> looks_like_equation digit (ascii ''VOUT = 5 V'') 6 True
   \<and> \<not> looks_like_equation digit (ascii ''x'') 6 True"
proof (intro conjI)
  show "looks_like_equation digit t m r \<longleftrightarrow>
     (let n = normalize_equation_text t in
        m \<le> int (length n)
      \<and> (\<exists>c\<in>set n. c \<in> {0x3D, 0x2264, 0x2265, 0x2248, 0x2260, 0x2F, 0x2211, 0x221A, 0x5E})
      \<and> (r \<longrightarrow> (\<exists>c\<in>set n. c \<in> {0x3D, 0x2264, 0x2265, 0x2248, 0x2260}))
      \<and> \<not> (16 \<le> length (py_split n) \<and> (\<forall>c\<in>set n. c \<notin> {0x3D, 0x2F, 0x2211, 0x221A}))
      \<and> (\<exists>c\<in>set n. is_ascii_letter c)
      \<and> ((\<exists>c\<in>set n. digit c) \<or> 0x3D \<in> set n))"
    unfolding looks_like_equation_chars by (simp only: list.set)
  show "looks_like_equation digit (ascii ''VOUT = 5 V'') 6 True"
    unfolding looks_like_equation_unfold Let_def re_search_class_def hint_chars_def norm_vout
    by (simp add: is_ascii_letter_def)
  show "\<not> looks_like_equation digit (ascii ''x'') 6 True"
    unfolding looks_like_equation_unfold Let_def norm_x
    by simp
qed



theorem looks_like_equation_iff_witness:
  "looks_like_equation ascii_digit (ascii ''VOUT = 5 V'') 6 True
   \<and> (6::int) \<le> int (length (normalize_equation_text (ascii ''VOUT = 5 V'')))
   \<and> (\<exists>c\<in>set (normalize_equation_text (ascii ''VOUT = 5 V'')).
          c \<in> {0x3D, 0x2264, 0x2265, 0x2248, 0x2260 :: nat})
   \<and> \<not> looks_like_equation ascii_digit (ascii ''x'') 6 True"
  using looks_like_equation_iff [of ascii_digit "ascii ''VOUT = 5 V''" 6 True]
  by (simp add: norm_vout is_ascii_letter_def)
subsection \<open>Spatial sequencer\<close>

lemma tuple_le_refl: "tuple_le a a"
  by (simp add: tuple_le_def)

lemma tuple_le_trans: "tuple_le a b \<Longrightarrow> tuple_le b c \<Longrightarrow> tuple_le a c"
  by (auto simp: tuple_le_def)

lemma tuple_le_total: "\<not> tuple_le a b \<Longrightarrow> tuple_le b a"
  by (auto simp: tuple_le_def)

lemma mset_insert_sorted: "mset (insert_sorted key x ys) = add_mset x (mset ys)"
  by (induction ys) simp_all

lemma mset_py_sorted: "mset (py_sorted key xs) = mset xs"
  by (induction xs) (simp_all add: mset_insert_sorted)

lemma set_insert_sorted: "set (insert_sorted key x ys) = insert x (set ys)"
  using mset_insert_sorted [of key x ys, THEN arg_cong, of set_mset] by simp

lemma sorted_insert_sorted:
  "sorted_wrt (\<lambda>a b. tuple_le (key a) (key b)) ys \<Longrightarrow>
     sorted_wrt (\<lambda>a b. tuple_le (key a) (key b)) (insert_sorted key x ys)"
proof (induction ys)
  case Nil
  then show ?case by simp
next
  case (Cons y ys)
  show ?case
  proof (cases "tuple_le (key x) (key y)")
    case True
    have "tuple_le (key x) (key z)" if "z \<in> set ys" for z
      using that Cons.prems True tuple_le_trans [of "key x" "key y" "key z"] by auto
    with True Cons.prems show ?thesis by auto
  next
    case False
    then have "tuple_le (key y) (key x)" by (rule tuple_le_total)
    with False Cons show ?thesis by (auto simp: set_insert_sorted)
  qed
qed

lemma sorted_py_sorted: "sorted_wrt (\<lambda>a b. tuple_le (key a) (key b)) (py_sorted key xs)"
  by (induction xs) (simp_all add: sorted_insert_sorted)

lemma filter_insert_sorted:
  "filter (\<lambda>b. key b = k) (insert_sorted key x ys) =
     (if key x = k then x # filter (\<lambda>b. key b = k) ys else filter (\<lambda>b. key b = k) ys)"
  by (induction ys) (auto simp: tuple_le_refl)

lemma filter_py_sorted:
  "filter (\<lambda>b. key b = k) (py_sorted key xs) = filter (\<lambda>b. key b = k) xs"
  by (induction xs) (simp_all add: filter_insert_sorted)

text \<open>
  Claim C7. \<open>sorted_blocks_by_position\<close> returns a permutation of its input, ordered by the
  key (top edge \<open>y0\<close> ascending, then left edge \<open>x0\<close> ascending), and the sort is stable:
  the blocks with one and the same key \<open>(y0, x0)\<close> keep their relative order.
\<close>

theorem sorted_blocks_by_position_stable_sort:
  "mset (sorted_blocks_by_position blocks) = mset blocks
   \<and> sorted_wrt (\<lambda>a b. tuple_le (position_key a) (position_key b))
        (sorted_blocks_by_position blocks)
   \<and> (\<forall>k. filter (\<lambda>b. position_key b = k) (sorted_blocks_by_position blocks)
            = filter (\<lambda>b. position_key b = k) blocks)
   \<and> (\<forall>b. position_key b = (fst (snd (block_bbox b)), fst (block_bbox b)))"
proof (intro conjI allI)
  show "mset (sorted_blocks_by_position blocks) = mset blocks"
    by (simp add: sorted_blocks_by_position_def mset_py_sorted)
  show "sorted_wrt (\<lambda>a b. tuple_le (position_key a) (position_key b))
          (sorted_blocks_by_position blocks)"
    unfolding sorted_blocks_by_position_def by (rule sorted_py_sorted)
  show "filter (\<lambda>b. position_key b = k) (sorted_blocks_by_position blocks)
          = filter (\<lambda>b. position_key b = k) blocks" for k
    unfolding sorted_blocks_by_position_def by (rule filter_py_sorted)
  show "position_key b = (fst (snd (block_bbox b)), fst (block_bbox b))" for b
    by (simp add: position_key_def split: prod.splits)
qed

theorem sorted_blocks_by_position_stable_sort_witness:
  "filter (\<lambda>b. position_key b = (2, 0))
     (sorted_blocks_by_position
        [\<lparr>text_field = Some (ascii ''a''), bbox_field = Some (1, 2, 3, 4)\<rparr>,
         \<lparr>text_field = Some (ascii ''b''), bbox_field = Some (0, 2, 3, 4)\<rparr>,
         \<lparr>text_field = Some (ascii ''c''), bbox_field = Some (5, 1, 6, 2)\<rparr>,
         \<lparr>text_field = Some (ascii ''d''), bbox_field = Some (0, 2, 9, 9)\<rparr>])
   = [\<lparr>text_field = Some (ascii ''b''), bbox_field = Some (0, 2, 3, 4)\<rparr>,
      \<lparr>text_field = Some (ascii ''d''), bbox_field = Some (0, 2, 9, 9)\<rparr>]
   \<and> sorted_blocks_by_position
        [\<lparr>text_field = Some (ascii ''a''), bbox_field = Some (1, 2, 3, 4)\<rparr>,
         \<lparr>text_field = Some (ascii ''b''), bbox_field = Some (0, 2, 3, 4)\<rparr>,
         \<lparr>text_field = Some (ascii ''c''), bbox_field = Some (5, 1, 6, 2)\<rparr>,
         \<lparr>text_field = Some (ascii ''d''), bbox_field = Some (0, 2, 9, 9)\<rparr>]
     = [\<lparr>text_field = Some (ascii ''c''), bbox_field = Some (5, 1, 6, 2)\<rparr>,
        \<lparr>text_field = Some (ascii ''b''), bbox_field = Some (0, 2, 3, 4)\<rparr>,
        \<lparr>text_field = Some (ascii ''d''), bbox_field = Some (0, 2, 9, 9)\<rparr>,
        \<lparr>text_field = Some (ascii ''a''), bbox_field = Some (1, 2, 3, 4)\<rparr>]"
  using sorted_blocks_by_position_stable_sort
    [of "[\<lparr>text_field = Some (ascii ''a''), bbox_field = Some (1, 2, 3, 4)\<rparr>,
          \<lparr>text_field = Some (ascii ''b''), bbox_field = Some (0, 2, 3, 4)\<rparr>,
          \<lparr>text_field = Some (ascii ''c''), bbox_field = Some (5, 1, 6, 2)\<rparr>,
          \<lparr>text_field = Some (ascii ''d''), bbox_field = Some (0, 2, 9, 9)\<rparr>]"]
  by (simp add: sorted_blocks_by_position_def position_key_def block_bbox_def tuple_le_def)

subsection \<open>Context builder\<close>

lemma join_split_normalize:
  "py_join [0x20] (py_split (normalize_equation_text s)) = normalize_equation_text s"
proof -
  have "py_join [0x20] (map (map minus_to_hyphen) (py_split s))
        = map minus_to_hyphen (py_join [0x20] (py_split s))"
    using py_join_map [of minus_to_hyphen "[0x20]" "py_split s"]
    by (simp add: minus_to_hyphen_def)
  then show ?thesis
    by (simp add: py_split_normalize) (simp add: normalize_join)
qed

lemma clip_normalize: "clip (normalize_equation_text t) = snippet t"
  by (simp add: clip_def snippet_def join_split_normalize Let_def not_less)

lemma clip_Nil: "clip [] = []"
  by (simp add: clip_def py_split_Nil)

lemma length_snippet: "length (snippet t) \<le> 140"
  by (simp add: snippet_def Let_def ascii_def)

lemma snippet_Nil: "snippet [] = []"
  by (simp add: snippet_def normalize_join py_split_Nil)

lemma py_index_nat: "i < length xs \<Longrightarrow> py_index xs (int i) = Inr (xs ! i)"
  by (simp add: py_index_def)

lemma build_context_in_range:
  assumes "i < length blocks"
  shows "build_context blocks (int i) = Inr (spec_context blocks i)"
proof -
  have prev: "(if int i - 1 \<ge> 0
               then map_sum id (\<lambda>b. normalize_equation_text (block_text b))
                      (py_index blocks (int i - 1))
               else Inr [])
              = Inr (if 0 < i then normalize_equation_text (block_text (blocks ! (i - 1))) else [])"
  proof (cases "0 < i")
    case True
    then have "int i - 1 = int (i - 1)" by simp
    moreover have "i - 1 < length blocks" using assms by simp
    ultimately have "py_index blocks (int i - 1) = Inr (blocks ! (i - 1))"
      by (simp only: py_index_nat)
    then show ?thesis using True by simp
  next
    case False
    then show ?thesis by simp
  qed
  have nxt: "(if int i + 1 < int (length blocks)
              then map_sum id (\<lambda>b. normalize_equation_text (block_text b))
                     (py_index blocks (int i + 1))
              else Inr [])
             = Inr (if i + 1 < length blocks
                    then normalize_equation_text (block_text (blocks ! (i + 1))) else [])"
  proof (cases "i + 1 < length blocks")
    case True
    have "int i + 1 = int (i + 1)" by simp
    then have "py_index blocks (int i + 1) = Inr (blocks ! (i + 1))"
      using True by (simp only: py_index_nat)
    then show ?thesis using True by simp
  next
    case False
    then show ?thesis by simp
  qed
  show ?thesis
    unfolding build_context_def prev nxt
    by (simp add: spec_context_def Let_def clip_normalize clip_Nil)
qed

text \<open>
  Claim C4. For every list of blocks and every index in range, \<open>build_context\<close> returns
  (it raises nothing, also at the first and at the last index): the normalised texts of the
  previous and of the next block, each clipped to at most 140 characters (a longer one
  becomes its first 137 characters followed by three dots), joined with \<^verbatim>\<open> | \<close> when
  both are present and non-empty; the one snippet alone when only one is; and the empty
  string for a list with a single element.
\<close>

theorem build_context_total_and_clipped:
  assumes "i < length blocks"
  shows "build_context blocks (int i) = Inr (spec_context blocks i)
         \<and> length (snippet t) \<le> 140
         \<and> build_context [b] 0 = Inr []"
proof (intro conjI)
  show "build_context blocks (int i) = Inr (spec_context blocks i)"
    using assms by (rule build_context_in_range)
  show "length (snippet t) \<le> 140"
    by (rule length_snippet)
  have "build_context [b] (int 0) = Inr (spec_context [b] 0)"
    by (rule build_context_in_range) simp
  then show "build_context [b] 0 = Inr []"
    by (simp add: spec_context_def)
qed

theorem build_context_total_and_clipped_witness:
  "build_context
     [\<lparr>text_field = Some (ascii ''See  Figure 12''), bbox_field = None\<rparr>,
      \<lparr>text_field = Some (ascii ''VOUT = 5 V''), bbox_field = None\<rparr>,
      \<lparr>text_field = Some (replicate 150 0x41), bbox_field = None\<rparr>] 1
   = Inr (ascii ''See Figure 12 | '' @ replicate 137 0x41 @ ascii ''...'')
   \<and> build_context
     [\<lparr>text_field = Some (ascii ''See  Figure 12''), bbox_field = None\<rparr>,
      \<lparr>text_field = Some (ascii ''VOUT = 5 V''), bbox_field = None\<rparr>,
      \<lparr>text_field = Some (replicate 150 0x41), bbox_field = None\<rparr>] 0
   = Inr (ascii ''VOUT = 5 V'')"
proof -
  let ?bs = "[\<lparr>text_field = Some (ascii ''See  Figure 12''), bbox_field = None\<rparr>,
      \<lparr>text_field = Some (ascii ''VOUT = 5 V''), bbox_field = None\<rparr>,
      \<lparr>text_field = Some (replicate 150 0x41), bbox_field = None\<rparr>]"
  have n150: "normalize_equation_text (replicate 150 0x41) = replicate 150 0x41"
  proof -
    have "py_split (replicate 150 0x41) = [replicate 150 0x41]"
      by (rule py_split_word) (simp_all add: isspace_def)
    then show ?thesis by (simp add: normalize_join minus_to_hyphen_def)
  qed
  have s1: "snippet (ascii ''See  Figure 12'') = ascii ''See Figure 12''"
    by (simp add: snippet_def norm_eval)
  have s2: "snippet (ascii ''VOUT = 5 V'') = ascii ''VOUT = 5 V''"
    by (simp add: snippet_def norm_eval)
  have s3: "snippet (replicate 150 0x41) = replicate 137 0x41 @ ascii ''...''"
    by (simp add: snippet_def n150)
  have c1: "spec_context ?bs 1 = ascii ''See Figure 12'' @ ascii '' | '' @ replicate 137 0x41 @ ascii ''...''"
    by (simp add: spec_context_def block_text_def s1 s3 Let_def) (simp add: ascii_def)
  have c0: "spec_context ?bs 0 = ascii ''VOUT = 5 V''"
    by (simp add: spec_context_def block_text_def s2 Let_def)
  have "build_context ?bs (int 1) = Inr (spec_context ?bs 1)"
    using build_context_total_and_clipped [of 1 ?bs] by simp
  moreover have "build_context ?bs (int 0) = Inr (spec_context ?bs 0)"
    using build_context_total_and_clipped [of 0 ?bs] by simp
  ultimately show ?thesis
    by (simp only: c1 c0 of_nat_0 of_nat_1) (simp add: ascii_def)
qed

subsection \<open>Deduplicator\<close>

lemma item_key_canon: "item_key (canon_item x) = item_key x"
  by (cases x) (simp add: item_key_def canon_item_def normalize_idem)

lemma dedupe_loop_out: "dedupe_loop seen out xs = out @ dedupe_loop seen [] xs"
proof (induction xs arbitrary: seen out)
  case Nil
  then show ?case by simp
next
  case (Cons x xs)
  obtain p t bb where x: "x = (p, t, bb)" by (cases x)
  show ?case
    using Cons.IH [of seen out]
      Cons.IH [of "insert (p, normalize_equation_text t, round_bbox bb) seen"
                  "out @ [(p, normalize_equation_text t, bb)]"]
      Cons.IH [of "insert (p, normalize_equation_text t, round_bbox bb) seen"
                  "[(p, normalize_equation_text t, bb)]"]
    by (simp add: x Let_def)
qed

lemma dedupe_loop_append:
  "dedupe_loop seen out (xs @ ys) =
     dedupe_loop (seen \<union> item_key ` set xs) (dedupe_loop seen out xs) ys"
proof (induction xs arbitrary: seen out)
  case Nil
  then show ?case by simp
next
  case (Cons x xs)
  obtain p t bb where x: "x = (p, t, bb)" by (cases x)
  let ?k = "(p, normalize_equation_text t, round_bbox bb)"
  have k: "item_key x = ?k" by (simp add: x item_key_def)
  show ?case
  proof (cases "?k \<in> seen")
    case True
    then have "seen \<union> item_key ` set (x # xs) = seen \<union> item_key ` set xs"
      using k by auto
    then show ?thesis using True Cons.IH [of seen out] by (simp add: x Let_def)
  next
    case False
    have "seen \<union> item_key ` set (x # xs) = insert ?k seen \<union> item_key ` set xs"
      using k by auto
    then show ?thesis
      using False Cons.IH [of "insert ?k seen" "out @ [(p, normalize_equation_text t, bb)]"]
      by (simp add: x Let_def)
  qed
qed

lemma dedupe_Nil: "dedupe [] = []"
  by (simp add: dedupe_def)

lemma dedupe_snoc:
  "dedupe (xs @ [x]) =
     (if item_key x \<in> item_key ` set xs then dedupe xs else dedupe xs @ [canon_item x])"
proof -
  obtain p t bb where x: "x = (p, t, bb)" by (cases x)
  have "dedupe (xs @ [x]) = dedupe_loop (item_key ` set xs) (dedupe xs) [x]"
    by (simp add: dedupe_def dedupe_loop_append)
  then show ?thesis
    by (simp add: x item_key_def canon_item_def Let_def)
qed

lemma keys_dedupe: "item_key ` set (dedupe xs) = item_key ` set xs"
proof (induction xs rule: rev_induct)
  case Nil
  then show ?case by (simp add: dedupe_Nil)
next
  case (snoc x xs)
  then show ?case by (auto simp: dedupe_snoc item_key_canon)
qed

lemma distinct_keys_dedupe: "distinct (map item_key (dedupe xs))"
proof (induction xs rule: rev_induct)
  case Nil
  then show ?case by (simp add: dedupe_Nil)
next
  case (snoc x xs)
  then show ?case
    using keys_dedupe [of xs] by (auto simp: dedupe_snoc item_key_canon)
qed

lemma subseq_dedupe: "subseq (dedupe xs) (map canon_item xs)"
proof (induction xs rule: rev_induct)
  case Nil
  then show ?case by (simp add: dedupe_Nil)
next
  case (snoc x xs)
  have "subseq (dedupe xs @ []) (map canon_item xs @ [canon_item x])"
    using snoc.IH by (intro list_emb_append_mono) simp_all
  moreover have "subseq (dedupe xs @ [canon_item x]) (map canon_item xs @ [canon_item x])"
    using snoc.IH by (intro list_emb_append_mono) simp_all
  ultimately show ?case by (simp add: dedupe_snoc)
qed

lemma first_occurrences_Nil: "first_occurrences [] = []"
  by (simp add: first_occurrences_def)

lemma first_occurrences_snoc:
  "first_occurrences (xs @ [x]) =
     (if item_key x \<in> item_key ` set xs then first_occurrences xs
      else first_occurrences xs @ [x])"
proof -
  have kept: "kept_first (xs @ [x]) i = kept_first xs i" if "i < length xs" for i
    using that by (simp add: kept_first_def nth_append)
  have f: "filter (kept_first (xs @ [x])) [0..<length xs] = filter (kept_first xs) [0..<length xs]"
    by (rule filter_cong) (simp_all add: kept)
  have m: "map (\<lambda>i. (xs @ [x]) ! i) (filter (kept_first xs) [0..<length xs])
           = map (\<lambda>i. xs ! i) (filter (kept_first xs) [0..<length xs])"
    by (rule map_cong) (auto simp: nth_append)
  have last: "kept_first (xs @ [x]) (length xs) \<longleftrightarrow> item_key x \<notin> item_key ` set xs"
    by (simp add: kept_first_def)
  show ?thesis
    by (simp add: first_occurrences_def f m last)
qed

lemma dedupe_first_occurrences: "dedupe items = map canon_item (first_occurrences items)"
proof (induction items rule: rev_induct)
  case Nil
  then show ?case by (simp add: dedupe_Nil first_occurrences_Nil)
next
  case (snoc x xs)
  then show ?case by (simp add: dedupe_snoc first_occurrences_snoc)
qed

lemma round_10_04: "py_round1 10.04 = 10"
  by code_simp

lemma round_19_98: "py_round1 19.98 = 20"
  by code_simp

lemma round_50_01: "py_round1 50.01 = 50"
  by code_simp

lemma round_30_02: "py_round1 30.02 = 30"
  by code_simp

lemma round_10_00: "py_round1 10.00 = 10"
  by code_simp

lemma round_20_00: "py_round1 20.00 = 20"
  by code_simp

lemma round_50_00: "py_round1 50.00 = 50"
  by code_simp

lemma round_30_00: "py_round1 30.00 = 30"
  by code_simp

lemma round_bbox_jitter:
  "round_bbox (10.04, 19.98, 50.01, 30.02) = (10, 20, 50, 30)"
  "round_bbox (10.00, 20.00, 50.00, 30.00) = (10, 20, 50, 30)"
  by (simp_all only: round_bbox_def prod.case round_10_04 round_19_98 round_50_01 round_30_02
        round_10_00 round_20_00 round_50_00 round_30_00)

lemma dedupe_jitter:
  "dedupe [(p, t, (10.00, 20.00, 50.00, 30.00)), (p, t, (10.04, 19.98, 50.01, 30.02))]
     = [(p, normalize_equation_text t, (10.00, 20.00, 50.00, 30.00))]"
  "dedupe [(p, t, (10.04, 19.98, 50.01, 30.02)), (p, t, (10.00, 20.00, 50.00, 30.00))]
     = [(p, normalize_equation_text t, (10.04, 19.98, 50.01, 30.02))]"
  by (simp_all only: dedupe_def dedupe_loop.simps Let_def round_bbox_jitter empty_iff if_False
        insert_iff simp_thms if_True append_Nil)

lemma canon_item_fixed:
  "\<forall>x\<in>set items. fst (snd x) = normalize_equation_text (fst (snd x)) \<Longrightarrow>
     map canon_item items = items"
  by (induction items) (auto simp: canon_item_def)

text \<open>
  Claim C2, as stated, asks that \<open>dedupe\<close> return a subsequence of its input. It does not
  when a kept text is not in normal form: the kept element is returned with its text
  normalised.
\<close>

theorem dedupe_subsequence_counterexample:
  "dedupe [(1, ascii ''a  b'', (0, 0, 0, 0))] = [(1, ascii ''a b'', (0, 0, 0, 0))]
   \<and> \<not> subseq (dedupe [(1, ascii ''a  b'', (0, 0, 0, 0))]) [(1, ascii ''a  b'', (0, 0, 0, 0))]"
proof -
  have d: "dedupe [(1, ascii ''a  b'', (0, 0, 0, 0))] = [(1, ascii ''a b'', (0, 0, 0, 0))]"
    by (simp add: dedupe_def Let_def norm_eval)
  have "(1::int, ascii ''a b'', (0::rat, 0::rat, 0::rat, 0::rat))
          \<noteq> (1, ascii ''a  b'', (0, 0, 0, 0))"
    by (simp add: ascii_def)
  then have "\<not> subseq [(1::int, ascii ''a b'', (0::rat, 0::rat, 0::rat, 0::rat))]
               [(1, ascii ''a  b'', (0, 0, 0, 0))]"
    by (simp add: subseq_singleton_left)
  with d show ?thesis by simp
qed

text \<open>
  Claim C2, amended. For every finite sequence of (page, text, bbox) triples, \<open>dedupe\<close>
  returns, in first-occurrence order, exactly one element per key (page, normalised text,
  bbox with each coordinate rounded to one decimal place): an element is kept if and only
  if no earlier element has an equal key, every later element with an equal key is dropped,
  and a kept element is returned with its text normalised, its page and bbox unchanged. So
  the result is a subsequence of the input with normalised texts (of the input itself when
  its texts are in normal form already), its keys are pairwise different, and every key of
  the input is the key of a result element: elements whose keys differ in page or in
  rounded bbox are all kept, also when their normalised texts are equal. Two triples with
  the same page and text and the bboxes (10.00, 20.00, 50.00, 30.00) and
  (10.04, 19.98, 50.01, 30.02) collapse to one.
\<close>

theorem dedupe_first_occurrence_per_key:
  "dedupe [] = []
   \<and> dedupe (xs @ [x]) =
       (if item_key x \<in> item_key ` set xs then dedupe xs else dedupe xs @ [canon_item x])
   \<and> subseq (dedupe items) (map canon_item items)
   \<and> ((\<forall>x\<in>set items. fst (snd x) = normalize_equation_text (fst (snd x)))
        \<longrightarrow> subseq (dedupe items) items)
   \<and> distinct (map item_key (dedupe items))
   \<and> item_key ` set (dedupe items) = item_key ` set items
   \<and> dedupe [(p, t, (10.00, 20.00, 50.00, 30.00)), (p, t, (10.04, 19.98, 50.01, 30.02))]
       = [(p, normalize_equation_text t, (10.00, 20.00, 50.00, 30.00))]"
proof (intro conjI impI)
  show "dedupe [] = []" by (rule dedupe_Nil)
  show "dedupe (xs @ [x]) =
       (if item_key x \<in> item_key ` set xs then dedupe xs else dedupe xs @ [canon_item x])"
    by (rule dedupe_snoc)
  show "subseq (dedupe items) (map canon_item items)" by (rule subseq_dedupe)
  show "subseq (dedupe items) items"
    if "\<forall>x\<in>set items. fst (snd x) = normalize_equation_text (fst (snd x))"
    using subseq_dedupe [of items] canon_item_fixed [OF that] by simp
  show "distinct (map item_key (dedupe items))" by (rule distinct_keys_dedupe)
  show "item_key ` set (dedupe items) = item_key ` set items" by (rule keys_dedupe)
  show "dedupe [(p, t, (10.00, 20.00, 50.00, 30.00)), (p, t, (10.04, 19.98, 50.01, 30.02))]
       = [(p, normalize_equation_text t, (10.00, 20.00, 50.00, 30.00))]"
    by (rule dedupe_jitter)
qed

theorem dedupe_first_occurrence_per_key_witness:
  "dedupe [(1, ascii ''A'', (10, 20, 50, 30)), (1, ascii ''A'', (10, 20, 50, 30)),
           (2, ascii ''A'', (10, 20, 50, 30))]
     = [(1, ascii ''A'', (10, 20, 50, 30)), (2, ascii ''A'', (10, 20, 50, 30))]
   \<and> subseq (dedupe [(1, ascii ''A'', (10, 20, 50, 30)), (1, ascii ''A'', (10, 20, 50, 30))])
        [(1, ascii ''A'', (10, 20, 50, 30)), (1, ascii ''A'', (10, 20, 50, 30))]"
proof -
  have n: "normalize_equation_text (ascii ''A'') = ascii ''A''"
    by (simp add: norm_eval)
  have d: "dedupe [(1, ascii ''A'', (10, 20, 50, 30)), (1, ascii ''A'', (10, 20, 50, 30))]
             = [(1, ascii ''A'', (10, 20, 50, 30))]"
    by (simp add: dedupe_def Let_def n)
  show ?thesis
    using dedupe_first_occurrence_per_key
      [of "[(1, ascii ''A'', (10, 20, 50, 30)), (1, ascii ''A'', (10, 20, 50, 30))]"
          "(2, ascii ''A'', (10, 20, 50, 30))"
          "[(1, ascii ''A'', (10, 20, 50, 30)), (1, ascii ''A'', (10, 20, 50, 30))]"]
    by (simp add: d n item_key_def canon_item_def)
qed

text \<open>
  Claim C10. \<open>dedupe\<close> rounds only inside the membership key: every element of the result
  is (page, normalised text, original bbox) of the first input element with its key, in
  input order. The rounded coordinates are never returned: of two elements that differ
  only in the second decimal of the bbox, the result holds the first with the bbox it came
  with.
\<close>

theorem dedupe_emits_original_bbox:
  "dedupe items =
     map (\<lambda>(p, t, bb). (p, normalize_equation_text t, bb)) (first_occurrences items)
   \<and> dedupe [(p, t, (10.04, 19.98, 50.01, 30.02)), (p, t, (10.00, 20.00, 50.00, 30.00))]
       = [(p, normalize_equation_text t, (10.04, 19.98, 50.01, 30.02))]
   \<and> round_bbox (10.04, 19.98, 50.01, 30.02) = (10, 20, 50, 30)"
proof (intro conjI)
  have "canon_item = (\<lambda>(p, t, bb). (p, normalize_equation_text t, bb))"
    by (rule ext) (simp add: canon_item_def)
  then show "dedupe items =
     map (\<lambda>(p, t, bb). (p, normalize_equation_text t, bb)) (first_occurrences items)"
    using dedupe_first_occurrences [of items] by simp
  show "dedupe [(p, t, (10.04, 19.98, 50.01, 30.02)), (p, t, (10.00, 20.00, 50.00, 30.00))]
       = [(p, normalize_equation_text t, (10.04, 19.98, 50.01, 30.02))]"
    by (rule dedupe_jitter)
  show "round_bbox (10.04, 19.98, 50.01, 30.02) = (10, 20, 50, 30)"
    by (rule round_bbox_jitter)
qed

theorem dedupe_emits_original_bbox_witness:
  "dedupe [(3, ascii ''a  b'', (10.04, 19.98, 50.01, 30.02)),
           (3, ascii ''a  b'', (10.00, 20.00, 50.00, 30.00))]
     = [(3, ascii ''a b'', (10.04, 19.98, 50.01, 30.02))]"
  using dedupe_emits_original_bbox [of "[]" 3 "ascii ''a  b''"]
  by (simp add: norm_eval)

subsection \<open>Identifier assignment\<close>

lemma records_loop_ids:
  "map eq_id (records_loop f cm n ds acc) = map eq_id acc @ map (\<lambda>k. n + int k) [0..<length ds]"
proof (induction ds arbitrary: n acc)
  case Nil
  then show ?case by simp
next
  case (Cons d ds)
  obtain p t bb where d: "d = (p, t, bb)" by (cases d)
  have "[0..<Suc (length ds)] = 0 # [Suc 0..<Suc (length ds)]"
    by (rule upt_conv_Cons) simp
  then have "[0..<length (d # ds)] = 0 # map Suc [0..<length ds]"
    by (simp only: map_Suc_upt length_Cons)
  then have "map (\<lambda>k. n + int k) [0..<length (d # ds)]
             = n # map (\<lambda>k. (n + 1) + int k) [0..<length ds]"
    by (simp add: comp_def)
  then show ?case
    by (simp add: d Let_def Cons.IH)
qed

lemma records_loop_fields:
  "map (\<lambda>e. (eq_page e, eq_text e, eq_bbox e)) (records_loop f cm n ds acc)
     = map (\<lambda>e. (eq_page e, eq_text e, eq_bbox e)) acc @ ds"
proof (induction ds arbitrary: n acc)
  case Nil
  then show ?case by simp
next
  case (Cons d ds)
  obtain p t bb where d: "d = (p, t, bb)" by (cases d)
  show ?case by (simp add: d Let_def Cons.IH)
qed

lemma ids_from_one: "map (\<lambda>k. 1 + int k) [0..<n] = map int [1..<Suc n]"
proof -
  have "map int [1..<Suc n] = map int (map Suc [0..<n])"
    by (simp add: map_Suc_upt)
  then show ?thesis by (simp add: comp_def)
qed

text \<open>
  Claim C3. For every run of the second half of \<open>main\<close> (any list of candidates gathered
  over all pages), with \<open>N\<close> the number of candidates that survive deduplication: the
  identifiers of the emitted records are exactly \<open>1, ..., N\<close>, without gap or repetition, in
  the order in which the candidates survive deduplication (the record with identifier \<open>k\<close>
  carries page, text and bbox of the \<open>k\<close>-th survivor). The identifiers are computed from
  the result of \<open>dedupe\<close> on the whole candidate list, so none is assigned before
  deduplication is complete.
\<close>

theorem main_records_dense_ids:
  "(let deduped = dedupe (map (\<lambda>(p, t, bb, _). (p, t, bb)) candidates);
        records = main_records f candidates
    in map eq_id records = map int [1..<Suc (length deduped)]
       \<and> distinct (map eq_id records)
       \<and> map (\<lambda>e. (eq_page e, eq_text e, eq_bbox e)) records = deduped
       \<and> records = records_loop f (ctx_map_loop candidates Map.empty) 1 deduped [])"
proof -
  let ?d = "dedupe (map (\<lambda>(p, t, bb, _). (p, t, bb)) candidates)"
  have r: "main_records f candidates = records_loop f (ctx_map_loop candidates Map.empty) 1 ?d []"
    by (simp add: main_records_def Let_def)
  have ids: "map eq_id (main_records f candidates) = map int [1..<Suc (length ?d)]"
    by (simp only: r records_loop_ids ids_from_one list.map append_Nil)
  have "distinct (map int [1..<Suc (length ?d)])"
    by (simp add: distinct_map)
  then have dist: "distinct (map eq_id (main_records f candidates))"
    by (simp only: ids)
  have fields: "map (\<lambda>e. (eq_page e, eq_text e, eq_bbox e)) (main_records f candidates) = ?d"
    by (simp only: r records_loop_fields list.map append_Nil)
  show ?thesis
    unfolding Let_def using ids dist fields r by blast
qed

theorem main_records_dense_ids_witness:
  "map eq_id (main_records id
      [(1, ascii ''A = 1'', (10, 20, 50, 30), ascii ''ctx''),
       (1, ascii ''A  = 1'', (10, 20, 50, 30), []),
       (2, ascii ''A = 1'', (10, 20, 50, 30), [])]) = [1, 2]"
proof -
  have d: "dedupe [(1, ascii ''A = 1'', (10, 20, 50, 30)), (1, ascii ''A  = 1'', (10, 20, 50, 30)),
                   (2, ascii ''A = 1'', (10, 20, 50, 30))]
           = [(1, ascii ''A = 1'', (10, 20, 50, 30)), (2, ascii ''A = 1'', (10, 20, 50, 30))]"
    by (simp add: dedupe_def Let_def norm_eval)
  have u: "[1..<Suc (Suc (Suc 0))] = [1, 2]"
    by (simp add: upt_conv_Cons)
  show ?thesis
    using main_records_dense_ids [of "[(1, ascii ''A = 1'', (10, 20, 50, 30), ascii ''ctx''),
       (1, ascii ''A  = 1'', (10, 20, 50, 30), []),
       (2, ascii ''A = 1'', (10, 20, 50, 30), [])]" id]
    by (simp add: Let_def d u)
qed

subsection \<open>Snapshot locator\<close>

lemma search_pages_locate:
  "\<forall>pno\<in>set pnos. load_page pno = Inr (pg pno) \<Longrightarrow>
     search_pages load_page eq pnos = Inr (locate_in pg eq pnos)"
proof (induction pnos)
  case Nil
  then show ?case by (simp add: locate_in_def)
next
  case (Cons pno pnos)
  then have IH: "search_pages load_page eq pnos = Inr (locate_in pg eq pnos)"
    and load: "load_page pno = Inr (pg pno)"
    by simp_all
  show ?case
  proof (cases "search_for (pg pno) (eq_token eq)")
    case Nil
    then show ?thesis using IH load by (simp add: locate_in_def)
  next
    case (Cons r rs)
    then show ?thesis using load by (simp add: locate_in_def)
  qed
qed

lemma images_loop_locate:
  assumes "\<forall>pno\<in>set [fst r - 1 .. snd r - 1]. load_page pno = Inr (pg pno)"
  shows "images_loop load_page r eqs m =
           Inr (\<lambda>eq. if eq \<in> set eqs
                     then (case locate_in pg eq [fst r - 1 .. snd r - 1] of
                             None \<Rightarrow> m eq | Some snap \<Rightarrow> Some snap)
                     else m eq)"
proof (induction eqs arbitrary: m)
  case Nil
  then show ?case by simp
next
  case (Cons eq eqs)
  let ?loc = "\<lambda>e. locate_in pg e [fst r - 1 .. snd r - 1]"
  have s: "search_pages load_page eq [fst r - 1 .. snd r - 1] = Inr (?loc eq)"
    using assms by (rule search_pages_locate)
  show ?case
  proof (cases "?loc eq")
    case None
    have "images_loop load_page r (eq # eqs) m = images_loop load_page r eqs m"
      by (simp add: s None)
    also have "\<dots> = Inr (\<lambda>e. if e \<in> set eqs
                              then (case ?loc e of None \<Rightarrow> m e | Some snap \<Rightarrow> Some snap)
                              else m e)"
      by (rule Cons.IH)
    also have "(\<lambda>e. if e \<in> set eqs
                     then (case ?loc e of None \<Rightarrow> m e | Some snap \<Rightarrow> Some snap) else m e)
             = (\<lambda>e. if e \<in> set (eq # eqs)
                     then (case ?loc e of None \<Rightarrow> m e | Some snap \<Rightarrow> Some snap) else m e)"
      using None by (intro ext) auto
    finally show ?thesis .
  next
    case (Some snap)
    have "images_loop load_page r (eq # eqs) m = images_loop load_page r eqs (m(eq \<mapsto> snap))"
      by (simp add: s Some)
    also have "\<dots> = Inr (\<lambda>e. if e \<in> set eqs
                              then (case ?loc e of None \<Rightarrow> (m(eq \<mapsto> snap)) e
                                    | Some snap \<Rightarrow> Some snap)
                              else (m(eq \<mapsto> snap)) e)"
      by (rule Cons.IH)
    also have "(\<lambda>e. if e \<in> set eqs
                     then (case ?loc e of None \<Rightarrow> (m(eq \<mapsto> snap)) e
                           | Some snap \<Rightarrow> Some snap)
                     else (m(eq \<mapsto> snap)) e)
             = (\<lambda>e. if e \<in> set (eq # eqs)
                     then (case ?loc e of None \<Rightarrow> m e | Some snap \<Rightarrow> Some snap) else m e)"
      using Some by (intro ext) (auto split: option.splits)
    finally show ?thesis .
  qed
qed

lemma images_loop_empty:
  assumes "\<forall>pno\<in>set [fst r - 1 .. snd r - 1]. load_page pno = Inr (pg pno)"
  shows "images_loop load_page r eqs Map.empty =
           Inr (\<lambda>eq. if eq \<in> set eqs then locate_in pg eq [fst r - 1 .. snd r - 1] else None)"
proof -
  have "(\<lambda>eq. if eq \<in> set eqs
              then (case locate_in pg eq [fst r - 1 .. snd r - 1] of
                      None \<Rightarrow> Map.empty eq | Some snap \<Rightarrow> Some snap)
              else Map.empty eq)
        = (\<lambda>eq. if eq \<in> set eqs then locate_in pg eq [fst r - 1 .. snd r - 1] else None)"
    by (intro ext) (simp split: option.splits)
  then show ?thesis
    using images_loop_locate [OF assms, of eqs Map.empty] by simp
qed

lemma locate_in_miss:
  "\<forall>pno\<in>set pnos. search_for (pg pno) (eq_token eq) = [] \<Longrightarrow> locate_in pg eq pnos = None"
  by (induction pnos) (simp_all add: locate_in_def)

lemma crop_rect_clamped:
  "0 \<le> max 0 (y0 - 180 :: rat) \<and> min (page_height p) (y1 + 30) \<le> page_height p"
  by simp

text \<open>
  Claim C5, as stated, lets the page range be any range. When the range reaches beyond the
  document, loading the page raises, also for a label that is found on no page: here a
  document of one page without the token (a page number below the page count loads, a
  negative one counting from the end), searched over the pages 1 to 2.
\<close>

theorem extract_equation_images_range_counterexample:
  "extract_equation_images
     (\<lambda>pno. if pno < 1
            then Inr \<lparr>page_width = 612, page_height = 792, search_for = (\<lambda>token. [])\<rparr>
            else Inl ValueError)
     [42] (1, 2) = Inl ValueError"
proof -
  have "[(0::int) .. 1] = [0, 1]"
    by (simp add: upto.simps)
  then show ?thesis
    by (simp add: extract_equation_images_def)
qed

text \<open>
  Claim C5, amended. For every list of labels and every 1-based page range all of whose
  pages are pages of the document, \<open>extract_equation_images\<close> searches, for each label of
  the list, the pages of the range in increasing order for the token \<^verbatim>\<open>(n)\<close>; on the
  first page with a match it uses the first match rectangle and crops the region whose
  vertical extent runs from the match top minus 180 down to the match bottom plus 30,
  clamped to lie within 0 and the page height (the top is not below 0, the bottom not
  beyond the page height); and for a label found on no page of the range it raises
  nothing and leaves the label out of the returned mapping.
\<close>

theorem extract_equation_images_soft_miss:
  assumes "\<forall>pno\<in>set [fst r - 1 .. snd r - 1]. load_page pno = Inr (pg pno)"
  shows "extract_equation_images load_page eqs r =
           Inr (\<lambda>eq. if eq \<in> set eqs then locate_in pg eq [fst r - 1 .. snd r - 1] else None)
         \<and> ((\<forall>pno\<in>set [fst r - 1 .. snd r - 1]. search_for (pg pno) (eq_token eq) = [])
              \<longrightarrow> locate_in pg eq [fst r - 1 .. snd r - 1] = None)
         \<and> sorted [fst r - 1 .. snd r - 1]
         \<and> crop_rect p (x0, y0, x1, y1)
             = (0, max 0 (y0 - 180), page_width p, min (page_height p) (y1 + 30))
         \<and> 0 \<le> max 0 (y0 - 180)
         \<and> min (page_height p) (y1 + 30) \<le> page_height p"
proof (intro conjI impI)
  show "extract_equation_images load_page eqs r =
           Inr (\<lambda>eq. if eq \<in> set eqs then locate_in pg eq [fst r - 1 .. snd r - 1] else None)"
    unfolding extract_equation_images_def using assms by (rule images_loop_empty)
  show "locate_in pg eq [fst r - 1 .. snd r - 1] = None"
    if "\<forall>pno\<in>set [fst r - 1 .. snd r - 1]. search_for (pg pno) (eq_token eq) = []"
    using that by (rule locate_in_miss)
  show "sorted [fst r - 1 .. snd r - 1]"
    by simp
  show "crop_rect p (x0, y0, x1, y1)
             = (0, max 0 (y0 - 180), page_width p, min (page_height p) (y1 + 30))"
    by (simp add: crop_rect_def)
  show "0 \<le> max 0 (y0 - 180)"
    using crop_rect_clamped [of y0 p y1] by simp
  show "min (page_height p) (y1 + 30) \<le> page_height p"
    using crop_rect_clamped [of y0 p y1] by simp
qed

theorem extract_equation_images_soft_miss_witness:
  "\<exists>m. extract_equation_images two_page_doc [31, 42] (1, 2) = Inr m
       \<and> m 31 = Some \<lparr>snap_path = ascii ''eq_31_p2.png'', snap_page = 1,
                       snap_clip = (0, 0, 612, 140)\<rparr>
       \<and> m 42 = None"
proof -
  have u: "[fst (1::int, 2::int) - 1 .. snd (1::int, 2::int) - 1] = [0, 1]"
    by (simp add: upto.simps)
  have loads: "\<forall>pno\<in>set [fst (1::int, 2::int) - 1 .. snd (1::int, 2::int) - 1].
                 two_page_doc pno = Inr (two_pages pno)"
    unfolding u by (simp add: two_page_doc_def)
  have t31: "eq_token 31 = ascii ''(31)''"
    by (simp add: eq_token_def py_str_def digits_of.simps ascii_def)
  have t42: "eq_token 42 = ascii ''(42)''"
    by (simp add: eq_token_def py_str_def digits_of.simps ascii_def)
  have f31: "eq_file_name 31 1 = ascii ''eq_31_p2.png''"
    by (simp add: eq_file_name_def py_str_def digits_of.simps ascii_def)
  have ne: "ascii ''(42)'' \<noteq> ascii ''(31)''"
    by (simp add: ascii_def)
  have l31: "locate_in two_pages 31 [0, 1]
               = Some \<lparr>snap_path = ascii ''eq_31_p2.png'', snap_page = 1,
                       snap_clip = (0, 0, 612, 140)\<rparr>"
    by (simp add: locate_in_def t31 f31 two_pages_def blank_page_def eq31_page_def crop_rect_def)
  have l42: "locate_in two_pages 42 [0, 1] = None"
    by (simp add: locate_in_def t42 ne two_pages_def blank_page_def eq31_page_def)
  have "extract_equation_images two_page_doc [31, 42] (1, 2) =
          Inr (\<lambda>eq. if eq \<in> set [31, 42] then locate_in two_pages eq [0, 1] else None)"
    using extract_equation_images_soft_miss [OF loads, of "[31, 42]"] unfolding u by simp
  then show ?thesis
    by (simp add: l31 l42)
qed

end
